theory Spec2Isabelle
  imports Main "HOL-Library.Word"
begin

unbundle bit_operations_syntax

section \<open>Command streams\<close>

text \<open>
  A command stream of layout \<open>cmd_request_rw_layout(a, ba)\<close> as the arbiter and the
  steerer read it in one clock cycle. The \<open>ready\<close> signal travels the other way and
  is computed by the consumer, so it is not a field of the record.
\<close>

record cmd_request =
  valid :: bool
  a :: nat
  ba :: nat
  cas :: bool
  ras :: bool
  we :: bool
  is_cmd :: bool
  is_read :: bool
  is_write :: bool

text \<open>The four \<open>want_*\<close> inputs of a command chooser.\<close>

record wants =
  want_reads :: bool
  want_writes :: bool
  want_cmds :: bool
  want_activates :: bool

section \<open>multiplexer.py: \<open>_CommandChooser\<close> and \<open>_CommandChooserInt\<close>\<close>

text \<open>
  Both classes have the same body; the second only builds its own request endpoints.
  The definitions below follow the body line by line.
\<close>

definition is_act_cmd :: "cmd_request \<Rightarrow> bool" where
  "is_act_cmd request = (ras request \<and> \<not> cas request \<and> \<not> we request)"

definition command :: "wants \<Rightarrow> cmd_request \<Rightarrow> bool" where
  "command w request =
     (is_cmd request \<and> want_cmds w \<and> (\<not> is_act_cmd request \<or> want_activates w))"

definition read_eq :: "wants \<Rightarrow> cmd_request \<Rightarrow> bool" where
  "read_eq w request = (is_read request = want_reads w)"

definition write_eq :: "wants \<Rightarrow> cmd_request \<Rightarrow> bool" where
  "write_eq w request = (is_write request = want_writes w)"

definition valids_bit :: "wants \<Rightarrow> cmd_request \<Rightarrow> bool" where
  "valids_bit w request =
     (valid request \<and> (command w request \<or> (read_eq w request \<and> write_eq w request)))"

definition valids :: "wants \<Rightarrow> cmd_request list \<Rightarrow> bool list" where
  "valids w requests = map (valids_bit w) requests"

text \<open>
  Indexing a migen \<open>Array\<close> with a signal: an index beyond the last element reads the
  last element.
\<close>

definition array_sel :: "'a list \<Rightarrow> nat \<Rightarrow> 'a" where
  "array_sel xs i = (if i < length xs then xs ! i else last xs)"

definition cmd_valid :: "wants \<Rightarrow> cmd_request list \<Rightarrow> nat \<Rightarrow> bool" where
  "cmd_valid w requests grant = array_sel (valids w requests) grant"

text \<open>
  The selected command: \<open>a\<close>, \<open>ba\<close>, \<open>is_read\<close>, \<open>is_write\<close>, \<open>is_cmd\<close> follow the
  granted stream, \<open>cas\<close>, \<open>ras\<close>, \<open>we\<close> only while \<open>cmd.valid\<close>.
\<close>

definition chooser_cmd :: "wants \<Rightarrow> cmd_request list \<Rightarrow> nat \<Rightarrow> cmd_request" where
  "chooser_cmd w requests grant =
     (let v = cmd_valid w requests grant; r = array_sel requests grant in
      \<lparr> valid = v, a = a r, ba = ba r,
        cas = (v \<and> cas r), ras = (v \<and> ras r), we = (v \<and> we r),
        is_cmd = is_cmd r, is_read = is_read r, is_write = is_write r \<rparr>)"

text \<open>\<open>request.ready\<close> of stream \<open>i\<close>; a signal nothing drives is 0.\<close>

definition request_ready :: "wants \<Rightarrow> cmd_request list \<Rightarrow> nat \<Rightarrow> bool \<Rightarrow> nat \<Rightarrow> bool" where
  "request_ready w requests grant cmd_ready i =
     (if cmd_valid w requests grant \<and> cmd_ready \<and> grant = i then True else False)"

definition arbiter_ce :: "wants \<Rightarrow> cmd_request list \<Rightarrow> nat \<Rightarrow> bool \<Rightarrow> bool" where
  "arbiter_ce w requests grant cmd_ready = (cmd_ready \<or> \<not> cmd_valid w requests grant)"

definition accept :: "wants \<Rightarrow> cmd_request list \<Rightarrow> nat \<Rightarrow> bool \<Rightarrow> bool" where
  "accept w requests grant cmd_ready = (cmd_valid w requests grant \<and> cmd_ready)"

subsection \<open>The round-robin arbiter the chooser instantiates\<close>

text \<open>
  \<open>RoundRobin(n, SP_CE)\<close> of migen: in state \<open>grant = i\<close> the nested
  \<open>If(request[t], grant.eq(t)).Else(...)\<close> built for \<open>t = i+1, ..., i+n-1\<close> (modulo
  \<open>n\<close>) takes the first requesting \<open>t\<close> in that order and leaves the register alone when
  there is none. The \<open>Case\<close> has an arm for every \<open>i < n\<close> and no default.
\<close>

fun switch :: "bool list \<Rightarrow> nat \<Rightarrow> nat list \<Rightarrow> nat" where
  "switch request grant [] = grant"
| "switch request grant (t # ts) = (if request ! t then t else switch request grant ts)"

definition rr_order :: "nat \<Rightarrow> nat \<Rightarrow> nat list" where
  "rr_order n i = map (\<lambda>j. j mod n) [i + 1 ..< i + n]"

definition rr_case :: "bool list \<Rightarrow> nat \<Rightarrow> nat" where
  "rr_case request grant =
     (if grant < length request then switch request grant (rr_order (length request) grant)
      else grant)"

text \<open>
  The register update of one clock edge. With a single requester migen drives
  \<open>grant\<close> combinationally to 0.
\<close>

definition arbiter_next :: "bool list \<Rightarrow> bool \<Rightarrow> nat \<Rightarrow> nat" where
  "arbiter_next request ce grant =
     (if length request > 1 then (if ce then rr_case request grant else grant) else 0)"

definition chooser_next :: "wants \<Rightarrow> cmd_request list \<Rightarrow> bool \<Rightarrow> nat \<Rightarrow> nat" where
  "chooser_next w requests cmd_ready grant =
     arbiter_next (valids w requests) (arbiter_ce w requests grant cmd_ready) grant"

text \<open>
  The wording of the specification for eligibility: the stream is a read and reads are
  wanted, or a write and writes are wanted, or a housekeeping command and those are
  wanted, an activate only when activates are wanted too.
\<close>

definition spec_category_matches :: "wants \<Rightarrow> cmd_request \<Rightarrow> bool" where
  "spec_category_matches w request =
     ((is_read request \<and> want_reads w) \<or> (is_write request \<and> want_writes w) \<or>
      (is_cmd request \<and> want_cmds w \<and> (is_act_cmd request \<longrightarrow> want_activates w)))"

definition precharge_request :: cmd_request where
  "precharge_request =
     \<lparr> valid = True, a = 0, ba = 0, cas = False, ras = True, we = True,
       is_cmd = True, is_read = False, is_write = False \<rparr>"

definition no_wants :: wants where
  "no_wants = \<lparr> want_reads = False, want_writes = False, want_cmds = False,
                want_activates = False \<rparr>"

text \<open>
  The grant register over a sequence of cycles, each cycle given by the \<open>want_*\<close>
  inputs, the request streams and \<open>cmd.ready\<close>.
\<close>

fun chooser_run :: "nat \<Rightarrow> (wants \<times> cmd_request list \<times> bool) list \<Rightarrow> nat" where
  "chooser_run grant [] = grant"
| "chooser_run grant ((w, requests, cmd_ready) # cycles) =
     chooser_run (chooser_next w requests cmd_ready grant) cycles"

section \<open>The voting layer\<close>

text \<open>
  Modelled from the spec: \<open>TMRInput\<close> and \<open>vote_TMR\<close> of \<open>litedram.common\<close>, whose
  source is not among the files. The specification gives
  \<open>vote(a, b, c) = majority(a, b, c)\<close> bit-wise, each bit of a bus voted on its own.
\<close>

definition vote :: "'v::semiring_bit_operations \<Rightarrow> 'v \<Rightarrow> 'v \<Rightarrow> 'v" where
  "vote x y z = (x AND y) OR (y AND z) OR (x AND z)"

definition majority :: "bool \<Rightarrow> bool \<Rightarrow> bool \<Rightarrow> bool" where
  "majority p q r = ((p \<and> q) \<or> (q \<and> r) \<or> (p \<and> r))"

text \<open>
  \<open>TMRInput(Cat(s1, s2, s3)).control\<close>: the voted value of the three replicas of a
  signal, for a bus and for a one-bit signal.
\<close>

definition TMRInput_control :: "nat \<times> nat \<times> nat \<Rightarrow> nat" where
  "TMRInput_control sig = (case sig of (x, y, z) \<Rightarrow> vote x y z)"

definition TMRInput_control1 :: "bool \<times> bool \<times> bool \<Rightarrow> bool" where
  "TMRInput_control1 sig = (case sig of (p, q, r) \<Rightarrow> majority p q r)"

section \<open>bankmachine.py: \<open>_AddressSlicer\<close>\<close>

text \<open>
  A Python slice bound on a signal of \<open>len\<close> bits: a negative bound counts from the
  top, and every bound is clamped to the signal.
\<close>

definition slice_index :: "nat \<Rightarrow> int \<Rightarrow> nat" where
  "slice_index len i = (if i < 0 then nat (max 0 (int len + i)) else min len (nat i))"

record slicer =
  colbits :: nat
  address_align :: nat
  address_width :: nat

definition split :: "slicer \<Rightarrow> nat" where
  "split sl = slice_index (address_width sl) (int (colbits sl) - int (address_align sl))"

text \<open>\<open>address[split:]\<close> of an \<open>address_width\<close>-bit address.\<close>

definition slicer_row :: "slicer \<Rightarrow> nat \<Rightarrow> nat" where
  "slicer_row sl address = drop_bit (split sl) (take_bit (address_width sl) address)"

text \<open>\<open>Cat(Replicate(0, address_align), address[:split])\<close>.\<close>

definition slicer_col :: "slicer \<Rightarrow> nat \<Rightarrow> nat" where
  "slicer_col sl address = push_bit (address_align sl) (take_bit (split sl) address)"

section \<open>bankmachine.py: \<open>BankMachine\<close>\<close>

text \<open>
  The states of the command FSM. \<open>delayed_enter(name, target, delay)\<close> of migen adds
  \<open>delay\<close> states in a chain from \<open>name\<close> to \<open>target\<close>, here \<open>TRP i\<close> and \<open>TRCD i\<close>
  with \<open>i\<close> the position in the chain; with a delay of 0 or less, \<open>name\<close> is another
  name of \<open>target\<close>.
\<close>

datatype bm_fsm = REGULAR | PRECHARGE | AUTOPRECHARGE | ACTIVATE | REFRESH | TRP nat | TRCD nat

definition delayed_enter :: "(nat \<Rightarrow> 's) \<Rightarrow> 's \<Rightarrow> int \<Rightarrow> 's" where
  "delayed_enter name target delay = (if delay > 0 then name 0 else target)"

definition delayed_next :: "(nat \<Rightarrow> 's) \<Rightarrow> 's \<Rightarrow> int \<Rightarrow> nat \<Rightarrow> 's" where
  "delayed_next name target delay i = (if int i = delay - 1 then target else name (Suc i))"

record bm_settings =
  bank_n :: nat
  geom :: slicer
  rowbits :: nat
  addressbits :: nat
  with_auto_precharge :: bool
  tRP :: int
  tRCD :: int

text \<open>The registers of a bank machine.\<close>

record bm_regs =
  fsm :: bm_fsm
  row :: nat
  row_opened :: bool

text \<open>
  What a bank machine reads in one cycle: \<open>refresh_req\<close>, \<open>cmd.ready\<close> and
  \<open>req.valid\<close> from outside; from each of the three replicated buffers its
  \<open>source.valid\<close>, \<open>source.we\<close> and \<open>source.addr\<close> (the first address after the
  error injection, \<open>buffer_addr\<close>); the \<open>sink.ready\<close> of the three lookahead FIFOs;
  the \<open>ready\<close> of the three replicas of each timing controller.
\<close>

record bm_in =
  refresh_req :: bool
  ready :: bool
  req_valid :: bool
  lookahead_sink_ready :: "bool \<times> bool \<times> bool"
  lookValidSig :: "bool \<times> bool \<times> bool"
  lookAddrSig :: "nat \<times> nat \<times> nat"
  bufValidSig :: "bool \<times> bool \<times> bool"
  bufWeSig :: "bool \<times> bool \<times> bool"
  bufAddrSig :: "nat \<times> nat \<times> nat"
  twtpSig :: "bool \<times> bool \<times> bool"
  trcSig :: "bool \<times> bool \<times> bool"
  trasSig :: "bool \<times> bool \<times> bool"





definition bufAddrVote :: "bm_in \<Rightarrow> nat" where
  "bufAddrVote i = TMRInput_control (bufAddrSig i)"

definition lookAddrVote :: "bm_in \<Rightarrow> nat" where
  "lookAddrVote i = TMRInput_control (lookAddrSig i)"

definition lookValidVote :: "bm_in \<Rightarrow> bool" where
  "lookValidVote i = TMRInput_control1 (lookValidSig i)"

definition bufValidVote :: "bm_in \<Rightarrow> bool" where
  "bufValidVote i = TMRInput_control1 (bufValidSig i)"

definition bufWeVote :: "bm_in \<Rightarrow> bool" where
  "bufWeVote i = TMRInput_control1 (bufWeSig i)"

definition twtpVote :: "bm_in \<Rightarrow> bool" where
  "twtpVote i = TMRInput_control1 (twtpSig i)"

definition trcVote :: "bm_in \<Rightarrow> bool" where
  "trcVote i = TMRInput_control1 (trcSig i)"

definition trasVote :: "bm_in \<Rightarrow> bool" where
  "trasVote i = TMRInput_control1 (trasSig i)"

subsection \<open>Row tracking\<close>

definition row_hit :: "bm_settings \<Rightarrow> bm_regs \<Rightarrow> bm_in \<Rightarrow> bool" where
  "row_hit st s i = (row s = slicer_row (geom st) (bufAddrVote i))"

text \<open>\<open>row_close\<close> is driven in PRECHARGE, AUTOPRECHARGE and REFRESH.\<close>

definition row_close :: "bm_regs \<Rightarrow> bool" where
  "row_close s = (fsm s = PRECHARGE \<or> fsm s = AUTOPRECHARGE \<or> fsm s = REFRESH)"

text \<open>\<open>row_open\<close> and \<open>row_col_n_addr_sel\<close> are driven in ACTIVATE under \<open>trcVote\<close>.\<close>

definition row_open :: "bm_regs \<Rightarrow> bm_in \<Rightarrow> bool" where
  "row_open s i = (fsm s = ACTIVATE \<and> trcVote i)"

definition row_col_n_addr_sel :: "bm_regs \<Rightarrow> bm_in \<Rightarrow> bool" where
  "row_col_n_addr_sel s i = (fsm s = ACTIVATE \<and> trcVote i)"

subsection \<open>Auto-precharge generation\<close>

definition auto_precharge :: "bm_settings \<Rightarrow> bm_regs \<Rightarrow> bm_in \<Rightarrow> bool" where
  "auto_precharge st s i =
     (if with_auto_precharge st then
        (if lookValidVote i \<and> bufValidVote i then
           (if slicer_row (geom st) (lookAddrVote i) \<noteq> slicer_row (geom st) (bufAddrVote i)
            then (row_close s = False) else False)
         else False)
      else False)"

subsection \<open>The command of the cycle\<close>

text \<open>The row-hit branch of REGULAR, where the read or write command is driven.\<close>

definition regular_hit :: "bm_settings \<Rightarrow> bm_regs \<Rightarrow> bm_in \<Rightarrow> bool" where
  "regular_hit st s i =
     (fsm s = REGULAR \<and> \<not> refresh_req i \<and> bufValidVote i \<and> row_opened s \<and> row_hit st s i)"

definition precharge_go :: "bm_regs \<Rightarrow> bm_in \<Rightarrow> bool" where
  "precharge_go s i = (fsm s = PRECHARGE \<and> twtpVote i \<and> trasVote i)"

definition cmd_a :: "bm_settings \<Rightarrow> bm_regs \<Rightarrow> bm_in \<Rightarrow> nat" where
  "cmd_a st s i =
     take_bit (addressbits st)
       (if row_col_n_addr_sel s i then slicer_row (geom st) (bufAddrVote i)
        else push_bit 10 (of_bool (auto_precharge st s i)) OR slicer_col (geom st) (bufAddrVote i))"

definition bm_cmd :: "bm_settings \<Rightarrow> bm_regs \<Rightarrow> bm_in \<Rightarrow> cmd_request" where
  "bm_cmd st s i =
     \<lparr> valid = (regular_hit st s i \<or> precharge_go s i \<or> row_open s i),
       a = cmd_a st s i,
       ba = bank_n st,
       cas = regular_hit st s i,
       ras = (precharge_go s i \<or> row_open s i),
       we = ((regular_hit st s i \<and> bufWeVote i) \<or> precharge_go s i),
       is_cmd = (precharge_go s i \<or> row_open s i \<or> fsm s = REFRESH),
       is_read = (regular_hit st s i \<and> \<not> bufWeVote i),
       is_write = (regular_hit st s i \<and> bufWeVote i) \<rparr>"

definition req_wdata_ready :: "bm_settings \<Rightarrow> bm_regs \<Rightarrow> bm_in \<Rightarrow> bool" where
  "req_wdata_ready st s i = (regular_hit st s i \<and> bufWeVote i \<and> ready i)"

definition req_rdata_valid :: "bm_settings \<Rightarrow> bm_regs \<Rightarrow> bm_in \<Rightarrow> bool" where
  "req_rdata_valid st s i = (regular_hit st s i \<and> \<not> bufWeVote i \<and> ready i)"

definition refresh_gnt :: "bm_regs \<Rightarrow> bm_in \<Rightarrow> bool" where
  "refresh_gnt s i = (fsm s = REFRESH \<and> twtpVote i)"

subsection \<open>The clock edge\<close>

definition fsm_next :: "bm_settings \<Rightarrow> bm_regs \<Rightarrow> bm_in \<Rightarrow> bm_fsm" where
  "fsm_next st s i =
     (case fsm s of
        REGULAR \<Rightarrow>
          (if refresh_req i then REFRESH
           else if bufValidVote i then
             (if row_opened s then
                (if row_hit st s i then
                   (if ready i \<and> auto_precharge st s i then AUTOPRECHARGE else REGULAR)
                 else PRECHARGE)
              else ACTIVATE)
           else REGULAR)
      | PRECHARGE \<Rightarrow>
          (if twtpVote i \<and> trasVote i \<and> ready i
           then delayed_enter TRP ACTIVATE (tRP st - 1) else PRECHARGE)
      | AUTOPRECHARGE \<Rightarrow>
          (if twtpVote i \<and> trasVote i
           then delayed_enter TRP ACTIVATE (tRP st - 1) else AUTOPRECHARGE)
      | ACTIVATE \<Rightarrow>
          (if trcVote i \<and> ready i
           then delayed_enter TRCD REGULAR (tRCD st - 1) else ACTIVATE)
      | REFRESH \<Rightarrow> (if \<not> refresh_req i then REGULAR else REFRESH)
      | TRP k \<Rightarrow> delayed_next TRP ACTIVATE (tRP st - 1) k
      | TRCD k \<Rightarrow> delayed_next TRCD REGULAR (tRCD st - 1) k)"

definition bm_step :: "bm_settings \<Rightarrow> bm_regs \<Rightarrow> bm_in \<Rightarrow> bm_regs" where
  "bm_step st s i =
     \<lparr> fsm = fsm_next st s i,
       row = (if row_close s then row s
              else if row_open s i
                   then take_bit (rowbits st) (slicer_row (geom st) (bufAddrVote i))
                   else row s),
       row_opened = (if row_close s then False else if row_open s i then True
                     else row_opened s) \<rparr>"

text \<open>After reset: the FSM in its first state, the registers at 0.\<close>

definition bm_reset :: bm_regs where
  "bm_reset = \<lparr> fsm = REGULAR, row = 0, row_opened = False \<rparr>"

section \<open>multiplexer.py: \<open>_Steerer\<close> and \<open>_SteererInt\<close>\<close>

definition STEER_NOP :: nat where "STEER_NOP = 0"
definition STEER_CMD :: nat where "STEER_CMD = 1"
definition STEER_REQ :: nat where "STEER_REQ = 2"
definition STEER_REFRESH :: nat where "STEER_REFRESH = 3"

text \<open>
  One of the four command sources of the steerer, with the \<open>ready\<close> that the source
  is given in the cycle. In \<open>_SteererInt\<close> all four are endpoints; the \<open>nop\<close>
  record of \<open>_Steerer\<close>, which has no \<open>valid\<close>, behaves as a source whose
  \<open>valid\<close> is low.
\<close>

record steer_source =
  src :: cmd_request
  src_ready :: bool

definition valid_and :: "steer_source \<Rightarrow> (cmd_request \<Rightarrow> bool) \<Rightarrow> bool" where
  "valid_and c attr = (valid (src c) \<and> src_ready c \<and> attr (src c))"

text \<open>
  The geometry of a steerer: \<open>babits\<close> is the width of the \<open>ba\<close> field (bank bits
  and rank bits). \<open>log2_int(nranks)\<close> raises unless \<open>nranks\<close> is a power of two, so
  an elaborated steerer has \<open>nranks = 2 ^ rankbits\<close>.
\<close>

record steerer_geom =
  babits :: nat
  rankbits :: nat

definition nranks :: "steerer_geom \<Rightarrow> nat" where
  "nranks g = 2 ^ rankbits g"

text \<open>\<open>cmd.ba[-rankbits:]\<close> and \<open>cmd.ba[:-rankbits]\<close> of a \<open>babits\<close>-bit field.\<close>

definition ba_rank :: "steerer_geom \<Rightarrow> nat \<Rightarrow> nat" where
  "ba_rank g x =
     drop_bit (slice_index (babits g) (- int (rankbits g))) (take_bit (babits g) x)"

definition ba_bank :: "steerer_geom \<Rightarrow> nat \<Rightarrow> nat" where
  "ba_bank g x = take_bit (slice_index (babits g) (- int (rankbits g))) x"

text \<open>
  \<open>Decoder(nranks)\<close> of migen: output bit \<open>j\<close> is high exactly for input \<open>j\<close>. The
  chip selects are kept as one boolean per rank.
\<close>

definition rank_decoder_o :: "nat \<Rightarrow> nat \<Rightarrow> bool list" where
  "rank_decoder_o width i = map (\<lambda>j. i = j) [0 ..< width]"

record dfi_phase =
  address :: nat
  bank :: nat
  cs_n :: "bool list"
  cas_n :: bool
  ras_n :: bool
  we_n :: bool
  rddata_en :: bool
  wrdata_en :: bool

text \<open>
  The registers of phase \<open>i\<close> after the clock edge, from the selection \<open>sel\<close> and
  the four sources of the cycle before.
\<close>

definition steerer_phase :: "steerer_geom \<Rightarrow> nat \<Rightarrow> nat \<Rightarrow> steer_source list \<Rightarrow> dfi_phase" where
  "steerer_phase g i sel commands =
     (let c = array_sel commands sel;
          decoded = map Not (rank_decoder_o (nranks g) (ba_rank g (ba (src c)))) in
      \<lparr> address = a (src c),
        bank = (if rankbits g \<noteq> 0 then ba_bank g (ba (src c)) else ba (src c)),
        cs_n = (if rankbits g \<noteq> 0 then
                  (if i = 0 then
                     (if sel = STEER_REFRESH then replicate (nranks g) False else decoded)
                   else decoded)
                else replicate (nranks g) False),
        cas_n = (\<not> valid_and c cas),
        ras_n = (\<not> valid_and c ras),
        we_n = (\<not> valid_and c we),
        rddata_en = valid_and c is_read,
        wrdata_en = valid_and c is_write \<rparr>)"

definition steerer_next :: "steerer_geom \<Rightarrow> nat list \<Rightarrow> steer_source list \<Rightarrow> dfi_phase list" where
  "steerer_next g sels commands =
     map (\<lambda>(i, sel). steerer_phase g i sel commands) (zip [0 ..< length sels] sels)"

section \<open>multiplexer.py: \<open>Multiplexer\<close>\<close>

text \<open>
  The states of the control FSM; \<open>RTW k\<close> are the states of
  \<open>delayed_enter("RTW", "WRITE", read_latency - 1)\<close>.
\<close>

datatype mux_fsm = READ | WRITE | REFRESH_mux | WTR | RTW nat

record mux_settings =
  nphases :: int
  rdphase :: int
  wrphase :: int
  read_latency :: int

definition rdcmdphase :: "mux_settings \<Rightarrow> int" where
  "rdcmdphase ms = (rdphase ms - 1) mod nphases ms"

definition wrcmdphase :: "mux_settings \<Rightarrow> int" where
  "wrcmdphase ms = (wrphase ms - 1) mod nphases ms"

text \<open>
  \<open>go_to_refresh = reduce(and_, bm_refresh_gnts)\<close>; \<open>reduce\<close> without an initial
  value raises on an empty list.
\<close>

definition reduce_and :: "bool list \<Rightarrow> bool option" where
  "reduce_and xs = (case xs of [] \<Rightarrow> None | x # ys \<Rightarrow> Some (foldl (\<and>) x ys))"

definition go_to_refresh :: "(bm_regs \<times> bm_in) list \<Rightarrow> bool option" where
  "go_to_refresh bank_machines = reduce_and (map (\<lambda>(s, i). refresh_gnt s i) bank_machines)"

record mux_in =
  read_available :: bool
  write_available :: bool
  max_read_time :: bool
  max_write_time :: bool
  refreshCmd_last :: bool
  twtrVote :: bool

text \<open>
  The next state. In READ and WRITE the \<open>If(go_to_refresh, NextState("REFRESH"))\<close>
  comes last and so wins over the turnaround.
\<close>

definition mux_fsm_next :: "mux_settings \<Rightarrow> mux_fsm \<Rightarrow> bool \<Rightarrow> mux_in \<Rightarrow> mux_fsm" where
  "mux_fsm_next ms s go i =
     (case s of
        READ \<Rightarrow>
          (if go then REFRESH_mux
           else if write_available i \<and> (\<not> read_available i \<or> max_read_time i)
                then delayed_enter RTW WRITE (read_latency ms - 1) else READ)
      | WRITE \<Rightarrow>
          (if go then REFRESH_mux
           else if read_available i \<and> (\<not> write_available i \<or> max_write_time i)
                then WTR else WRITE)
      | REFRESH_mux \<Rightarrow> (if refreshCmd_last i then READ else REFRESH_mux)
      | WTR \<Rightarrow> (if twtrVote i then READ else WTR)
      | RTW k \<Rightarrow> delayed_next RTW WRITE (read_latency ms - 1) k)"

definition mux_reset :: mux_fsm where
  "mux_reset = READ"

text \<open>
  \<open>steerer.sel[p]\<close> in each state: \<open>steerer_sel\<close> in READ and WRITE (the later
  \<open>If\<close> wins where the two phases coincide), phase 0 on refresh in REFRESH, and the
  reset value \<open>STEER_NOP\<close> elsewhere.
\<close>

definition steerer_sel :: "int \<Rightarrow> int \<Rightarrow> int \<Rightarrow> nat" where
  "steerer_sel p datphase cmdphase =
     (if p = cmdphase then STEER_CMD else if p = datphase then STEER_REQ else STEER_NOP)"

definition mux_sel :: "mux_settings \<Rightarrow> mux_fsm \<Rightarrow> nat \<Rightarrow> nat" where
  "mux_sel ms s p =
     (case s of
        READ \<Rightarrow> steerer_sel (int p) (rdphase ms) (rdcmdphase ms)
      | WRITE \<Rightarrow> steerer_sel (int p) (wrphase ms) (wrcmdphase ms)
      | REFRESH_mux \<Rightarrow> (if p = 0 then STEER_REFRESH else STEER_NOP)
      | WTR \<Rightarrow> STEER_NOP
      | RTW k \<Rightarrow> STEER_NOP)"

text \<open>
  The \<open>sel\<close> signals of all phases as the multiplexer drives them, one per phase of
  the PHY.
\<close>

definition mux_sels :: "mux_settings \<Rightarrow> mux_fsm \<Rightarrow> nat list" where
  "mux_sels ms s = map (mux_sel ms s) [0 ..< nat (nphases ms)]"

section \<open>Example configurations\<close>

text \<open>
  A bank machine for 10 column bits, bursts of 8 and 14 row bits, in a cycle with row 5
  in the current buffer and row 9 in the lookahead.
\<close>

definition geom0 :: slicer where
  "geom0 = \<lparr> colbits = 10, address_align = 3, address_width = 21 \<rparr>"

definition settings0 :: bm_settings where
  "settings0 = \<lparr> bank_n = 0, geom = geom0, rowbits = 14, addressbits = 14,
                 with_auto_precharge = True, tRP = 2, tRCD = 2 \<rparr>"

definition in0 :: bm_in where
  "in0 = \<lparr> refresh_req = False, ready = True, req_valid = True,
           lookahead_sink_ready = (True, True, True),
           lookValidSig = (True, True, True), lookAddrSig = (1152, 1152, 1152),
           bufValidSig = (True, True, True), bufWeSig = (False, False, False),
           bufAddrSig = (640, 640, 640),
           twtpSig = (True, True, True), trcSig = (True, True, True),
           trasSig = (True, True, True) \<rparr>"

definition regs_precharge :: bm_regs where
  "regs_precharge = \<lparr> fsm = PRECHARGE, row = 7, row_opened = True \<rparr>"

definition regs_hit :: bm_regs where
  "regs_hit = \<lparr> fsm = REGULAR, row = 5, row_opened = True \<rparr>"

definition regs_refresh :: bm_regs where
  "regs_refresh = \<lparr> fsm = REFRESH, row = 5, row_opened = False \<rparr>"

definition in_refresh :: bm_in where
  "in_refresh = in0 \<lparr> refresh_req := True \<rparr>"

text \<open>
  The same bank machine in REFRESH with one replica of the write-to-precharge
  controller not ready, and with two of them not ready.
\<close>

definition in_refresh_voted :: bm_in where
  "in_refresh_voted = in_refresh \<lparr> twtpSig := (True, False, True) \<rparr>"

definition in_refresh_blocked :: bm_in where
  "in_refresh_blocked = in_refresh \<lparr> twtpSig := (False, True, False) \<rparr>"


text \<open>A steerer for two ranks of four banks, and the four sources of one cycle.\<close>

definition geom2 :: steerer_geom where
  "geom2 = \<lparr> babits = 3, rankbits = 1 \<rparr>"

definition refresh_request :: cmd_request where
  "refresh_request =
     \<lparr> valid = True, a = 0, ba = 0, cas = True, ras = True, we = False,
       is_cmd = True, is_read = False, is_write = False \<rparr>"

definition read_request :: cmd_request where
  "read_request =
     \<lparr> valid = True, a = 24, ba = 5, cas = True, ras = False, we = False,
       is_cmd = False, is_read = True, is_write = False \<rparr>"

definition idle_request :: cmd_request where
  "idle_request =
     \<lparr> valid = False, a = 0, ba = 0, cas = False, ras = False, we = False,
       is_cmd = False, is_read = False, is_write = False \<rparr>"

definition commands0 :: "steer_source list" where
  "commands0 =
     [\<lparr> src = idle_request, src_ready = False \<rparr>,
      \<lparr> src = idle_request, src_ready = True \<rparr>,
      \<lparr> src = read_request, src_ready = True \<rparr>,
      \<lparr> src = refresh_request, src_ready = True \<rparr>]"

definition mux_settings0 :: mux_settings where
  "mux_settings0 = \<lparr> nphases = 4, rdphase = 2, wrphase = 3, read_latency = 6 \<rparr>"

definition mux_in0 :: mux_in where
  "mux_in0 = \<lparr> read_available = True, write_available = False, max_read_time = False,
               max_write_time = False, refreshCmd_last = False, twtrVote = True \<rparr>"

section \<open>Properties of the command chooser\<close>

lemma array_sel_nth: "i < length xs \<Longrightarrow> array_sel xs i = xs ! i"
  by (simp add: array_sel_def)

text \<open>
  C2. In every cycle the \<open>ready\<close> of input stream \<open>i\<close> is high only when \<open>i\<close> is the
  granted stream and the chooser's output command is valid and accepted; a stream
  other than the granted one has \<open>ready\<close> low.
\<close>

theorem request_ready_only_granted:
  "(request_ready w requests grant cmd_ready i \<longrightarrow>
      grant = i \<and> cmd_valid w requests grant \<and> cmd_ready) \<and>
   (i \<noteq> grant \<longrightarrow> \<not> request_ready w requests grant cmd_ready i)"
  by (auto simp: request_ready_def)

theorem request_ready_only_granted_witness:
  "request_ready no_wants [precharge_request, precharge_request] 1 True 1 \<and>
   cmd_valid no_wants [precharge_request, precharge_request] 1 \<and>
   \<not> request_ready no_wants [precharge_request, precharge_request] 1 True 0"
  using request_ready_only_granted
    [of no_wants "[precharge_request, precharge_request]" 1 True 0]
  by (simp add: request_ready_def cmd_valid_def valids_def valids_bit_def array_sel_def
      command_def read_eq_def write_eq_def precharge_request_def no_wants_def)

text \<open>
  C3, as the specification words it: a stream is eligible exactly when it is valid and
  its category is in the wanted mask. The chooser does otherwise: with nothing wanted,
  a valid precharge command (neither read nor write) has its \<open>valids\<close> bit set.
\<close>

theorem valids_bit_not_category_mask:
  "valids_bit no_wants precharge_request \<and>
   \<not> (valid precharge_request \<and> spec_category_matches no_wants precharge_request)"
  by (simp add: valids_bit_def command_def read_eq_def write_eq_def spec_category_matches_def
      precharge_request_def no_wants_def)

text \<open>
  C3, amended. Stream \<open>i\<close> is eligible exactly when it is valid and either it is a
  housekeeping command while those are wanted (an activate only when activates are
  wanted too), or its read flag equals \<open>want_reads\<close> and its write flag equals
  \<open>want_writes\<close>.
\<close>

theorem valids_eligible:
  assumes "i < length requests"
  shows "valids w requests ! i =
     (valid (requests ! i) \<and>
      ((is_cmd (requests ! i) \<and> want_cmds w \<and>
          ((ras (requests ! i) \<and> \<not> cas (requests ! i) \<and> \<not> we (requests ! i))
             \<longrightarrow> want_activates w)) \<or>
       (is_read (requests ! i) = want_reads w \<and> is_write (requests ! i) = want_writes w)))"
  using assms
  by (auto simp: valids_def valids_bit_def command_def read_eq_def write_eq_def is_act_cmd_def)

theorem valids_eligible_witness:
  "valids no_wants [precharge_request] ! 0 = True"
  using valids_eligible [of 0 "[precharge_request]" no_wants]
  by (simp add: precharge_request_def no_wants_def)

lemma switch_cases:
  "switch request g ts = g \<or> (switch request g ts \<in> set ts \<and> request ! (switch request g ts))"
  by (induction ts) auto

lemma switch_found:
  "\<exists>t\<in>set ts. request ! t \<Longrightarrow> switch request g ts \<in> set ts \<and> request ! (switch request g ts)"
  by (induction ts) auto

lemma mod_wrap: "n \<le> j \<Longrightarrow> j < i + n \<Longrightarrow> i < n \<Longrightarrow> j mod n = j - (n::nat)"
  by (simp add: le_mod_geq)

lemma rr_order_sub:
  assumes "i < n" "k \<in> set (rr_order n i)"
  shows "k < n \<and> k \<noteq> i"
proof -
  from assms(2) obtain j where j: "i + 1 \<le> j" "j < i + n" "k = j mod n"
    by (auto simp: rr_order_def)
  have "k < n" using j assms by simp
  moreover have "k \<noteq> i"
  proof (cases "j < n")
    case True then show ?thesis using j by simp
  next
    case False
    then have "j mod n = j - n" using j assms by (simp add: mod_wrap)
    then show ?thesis using j False by simp
  qed
  ultimately show ?thesis by simp
qed

lemma rr_order_sup:
  assumes "i < n" "k < n" "k \<noteq> i"
  shows "k \<in> set (rr_order n i)"
proof (cases "i < k")
  case True
  then have "k \<in> set [i + 1 ..< i + n]" "k mod n = k" using assms by auto
  then have "k mod n \<in> (\<lambda>j. j mod n) ` set [i + 1 ..< i + n]" by (rule_tac imageI)
  then show ?thesis using \<open>k mod n = k\<close> by (simp add: rr_order_def)
next
  case False
  then have a: "k + n \<in> set [i + 1 ..< i + n]" and b: "(k + n) mod n = k" using assms by auto
  from a have "(k + n) mod n \<in> (\<lambda>j. j mod n) ` set [i + 1 ..< i + n]" by (rule imageI)
  then show ?thesis using b by (simp add: rr_order_def)
qed

lemma rr_case_other:
  assumes "grant < length request" "j < length request" "j \<noteq> grant" "request ! j"
  shows "rr_case request grant \<noteq> grant \<and> rr_case request grant < length request \<and>
         request ! (rr_case request grant)"
proof -
  let ?ts = "rr_order (length request) grant"
  have "j \<in> set ?ts" using assms by (simp add: rr_order_sup)
  then have "\<exists>t\<in>set ?ts. request ! t" using assms(4) by blast
  then have "switch request grant ?ts \<in> set ?ts \<and> request ! (switch request grant ?ts)"
    by (rule switch_found)
  then show ?thesis using assms(1) rr_order_sub [of grant "length request"]
    by (simp add: rr_case_def)
qed

lemma rr_case_bound: "grant < length request \<Longrightarrow> rr_case request grant < length request"
  using switch_cases [of request grant "rr_order (length request) grant"]
    rr_order_sub [of grant "length request"]
  by (auto simp: rr_case_def)

lemma chooser_next_bound:
  "grant < length requests \<Longrightarrow> chooser_next w requests cmd_ready grant < length requests"
  using rr_case_bound [of grant "valids w requests"]
  by (cases "length requests > 1") (auto simp: chooser_next_def arbiter_next_def valids_def)

lemma chooser_next_hold:
  "grant < length requests \<Longrightarrow> cmd_valid w requests grant \<Longrightarrow> \<not> cmd_ready \<Longrightarrow>
   chooser_next w requests cmd_ready grant = grant"
  by (auto simp: chooser_next_def arbiter_next_def arbiter_ce_def valids_def)

lemma chooser_run_hold:
  "grant < n \<Longrightarrow>
   \<forall>(w, requests, cmd_ready) \<in> set cycles.
      length requests = n \<and> cmd_valid w requests grant \<and> \<not> cmd_ready \<Longrightarrow>
   chooser_run grant cycles = grant"
proof (induction cycles)
  case Nil
  then show ?case by simp
next
  case (Cons c cycles)
  obtain w requests cmd_ready where c: "c = (w, requests, cmd_ready)" by (cases c)
  with Cons.prems have "chooser_next w requests cmd_ready grant = grant"
    by (simp add: chooser_next_hold)
  with Cons c show ?case by simp
qed

lemma rr_case_changed:
  assumes "grant < length request" and "rr_case request grant \<noteq> grant"
  shows "rr_case request grant < length request \<and> request ! (rr_case request grant)"
  using assms switch_cases [of request grant "rr_order (length request) grant"]
    rr_order_sub [of grant "length request"]
  by (auto simp: rr_case_def)

lemma chooser_next_changed:
  assumes "grant < length requests" and "chooser_next w requests cmd_ready grant \<noteq> grant"
  shows "arbiter_ce w requests grant cmd_ready \<and>
         chooser_next w requests cmd_ready grant < length requests \<and>
         valids w requests ! (chooser_next w requests cmd_ready grant)"
proof -
  have n: "length requests > 1"
    using assms by (cases "length requests > 1") (auto simp: chooser_next_def arbiter_next_def valids_def)
  have ce: "arbiter_ce w requests grant cmd_ready"
    using assms n by (cases "arbiter_ce w requests grant cmd_ready")
      (auto simp: chooser_next_def arbiter_next_def valids_def)
  have e: "chooser_next w requests cmd_ready grant = rr_case (valids w requests) grant"
    using n ce by (simp add: chooser_next_def arbiter_next_def valids_def)
  have "rr_case (valids w requests) grant < length (valids w requests) \<and>
        valids w requests ! (rr_case (valids w requests) grant)"
    using assms e by (intro rr_case_changed) (simp_all add: valids_def)
  then show ?thesis using ce e by (simp add: valids_def)
qed

lemma chooser_next_moves:
  assumes "grant < length requests" and "arbiter_ce w requests grant cmd_ready"
    and "j < length requests" and "j \<noteq> grant" and "valids w requests ! j"
  shows "chooser_next w requests cmd_ready grant \<noteq> grant"
proof -
  have n: "length requests > 1" using assms by auto
  have "rr_case (valids w requests) grant \<noteq> grant"
    using assms rr_case_other [of grant "valids w requests" j] by (simp add: valids_def)
  then show ?thesis using n assms(2) by (simp add: chooser_next_def arbiter_next_def valids_def)
qed

lemma arbiter_ce_accept:
  "arbiter_ce w requests grant cmd_ready \<longleftrightarrow>
   accept w requests grant cmd_ready \<or> \<not> cmd_valid w requests grant"
  by (auto simp: arbiter_ce_def accept_def)

text \<open>
  C1, as stated, fails: with streams 0 and 1 of which only stream 0 is eligible, the
  granted command of stream 0 is accepted and the grant register keeps the value 0.
\<close>

theorem grant_kept_without_other_stream:
  "accept no_wants [precharge_request, idle_request] 0 True \<and>
   chooser_next no_wants [precharge_request, idle_request] True 0 = 0"
  by (simp add: accept_def cmd_valid_def chooser_next_def arbiter_next_def arbiter_ce_def
      rr_case_def rr_order_def valids_def valids_bit_def command_def read_eq_def write_eq_def
      array_sel_def precharge_request_def idle_request_def no_wants_def)

text \<open>
  C1, amended. The grant register changes in a cycle exactly when the granted command
  is accepted (\<open>cmd.valid\<close> and \<open>cmd.ready\<close>) or no command is valid, and a stream
  other than the granted one is eligible; it then moves to an eligible stream. A valid
  command that is not accepted keeps the grant, for as many cycles as it stays valid
  and unaccepted.
\<close>

theorem chooser_grant_advance:
  assumes "grant < length requests"
  shows "(chooser_next w requests cmd_ready grant \<noteq> grant \<longleftrightarrow>
            (accept w requests grant cmd_ready \<or> \<not> cmd_valid w requests grant) \<and>
            (\<exists>j < length requests. j \<noteq> grant \<and> valids w requests ! j)) \<and>
         (chooser_next w requests cmd_ready grant \<noteq> grant \<longrightarrow>
            chooser_next w requests cmd_ready grant < length requests \<and>
            valids w requests ! (chooser_next w requests cmd_ready grant)) \<and>
         (cmd_valid w requests grant \<and> \<not> cmd_ready \<longrightarrow>
            chooser_next w requests cmd_ready grant = grant) \<and>
         ((\<forall>(w', requests', cmd_ready') \<in> set cycles.
             length requests' = length requests \<and> cmd_valid w' requests' grant \<and> \<not> cmd_ready')
            \<longrightarrow> chooser_run grant cycles = grant)"
proof (intro conjI impI iffI)
  assume c: "chooser_next w requests cmd_ready grant \<noteq> grant"
  from chooser_next_changed [OF assms c]
  show "accept w requests grant cmd_ready \<or> \<not> cmd_valid w requests grant"
    by (simp add: arbiter_ce_accept)
  from chooser_next_changed [OF assms c] c
  show "\<exists>j < length requests. j \<noteq> grant \<and> valids w requests ! j" by blast
next
  assume "(accept w requests grant cmd_ready \<or> \<not> cmd_valid w requests grant) \<and>
          (\<exists>j < length requests. j \<noteq> grant \<and> valids w requests ! j)"
  then show "chooser_next w requests cmd_ready grant \<noteq> grant"
    using assms chooser_next_moves [of grant requests w cmd_ready]
    by (auto simp: arbiter_ce_accept)
next
  assume c: "chooser_next w requests cmd_ready grant \<noteq> grant"
  from chooser_next_changed [OF assms c]
  show "chooser_next w requests cmd_ready grant < length requests" by simp
  from chooser_next_changed [OF assms c]
  show "valids w requests ! (chooser_next w requests cmd_ready grant)" by simp
next
  assume "cmd_valid w requests grant \<and> \<not> cmd_ready"
  then show "chooser_next w requests cmd_ready grant = grant"
    using assms by (simp add: chooser_next_hold)
next
  assume "\<forall>(w', requests', cmd_ready') \<in> set cycles.
             length requests' = length requests \<and> cmd_valid w' requests' grant \<and> \<not> cmd_ready'"
  then show "chooser_run grant cycles = grant"
    using assms by (rule_tac chooser_run_hold [of grant "length requests"])
qed

theorem chooser_grant_advance_witness:
  "chooser_next no_wants [precharge_request, precharge_request] True 0 \<noteq> 0 \<and>
   chooser_next no_wants [precharge_request, precharge_request] False 0 = 0 \<and>
   chooser_next no_wants [precharge_request, idle_request] True 0 = 0 \<and>
   chooser_run 0 [(no_wants, [precharge_request, precharge_request], False),
                  (no_wants, [precharge_request, precharge_request], False)] = 0"
proof -
  let ?rs = "[precharge_request, precharge_request]"
  let ?ri = "[precharge_request, idle_request]"
  let ?cycles = "[(no_wants, ?rs, False), (no_wants, ?rs, False)]"
  have g: "0 < length ?rs" and gi: "0 < length ?ri" by simp_all
  have v: "valids no_wants ?rs = [True, True]"
    by (simp add: valids_def valids_bit_def command_def read_eq_def write_eq_def
        precharge_request_def no_wants_def)
  have vi: "valids no_wants ?ri = [True, False]"
    by (simp add: valids_def valids_bit_def command_def read_eq_def write_eq_def
        precharge_request_def idle_request_def no_wants_def)
  have cv: "cmd_valid no_wants ?rs 0" by (simp add: cmd_valid_def v array_sel_def)
  have acc: "accept no_wants ?rs 0 True" by (simp add: accept_def cv)
  have ex: "\<exists>j < length ?rs. j \<noteq> 0 \<and> valids no_wants ?rs ! j"
    by (rule exI [of _ 1]) (simp add: v)
  have nex: "\<not> (\<exists>j < length ?ri. j \<noteq> 0 \<and> valids no_wants ?ri ! j)"
    by (auto simp: vi less_Suc_eq)
  have held: "\<forall>(w', requests', cmd_ready') \<in> set ?cycles.
      length requests' = length ?rs \<and> cmd_valid w' requests' 0 \<and> \<not> cmd_ready'"
    using cv by simp
  show ?thesis
    using chooser_grant_advance [OF g, of no_wants True ?cycles]
      chooser_grant_advance [OF g, of no_wants False ?cycles]
      chooser_grant_advance [OF gi, of no_wants True "[]"] acc ex nex held cv
    by blast
qed

section \<open>Properties of the voting layer, the bank machine, the multiplexer and the steerer\<close>

lemma vote_bit:
  "bit (vote x y z) k = majority (bit x k) (bit y k) (bit z k)"
  by (simp add: vote_def majority_def bit_or_iff bit_and_iff)

text \<open>
  C9. The vote of three equal values is that value, the vote masks one diverging
  replica in whichever position it stands, and every bit of a bus is the majority of
  the three bits at its position.
\<close>

theorem vote_majority:
  "vote x x x = x \<and> vote x x y = x \<and> vote x y x = x \<and> vote y x x = x \<and>
   (\<forall>k. bit (vote x y z) k = majority (bit x k) (bit y k) (bit z k))"
proof (intro conjI allI)
  show "vote x x x = x" by (simp add: vote_def)
  show "vote x x y = x" by (rule bit_eqI) (auto simp: vote_def bit_or_iff bit_and_iff)
  show "vote x y x = x" by (rule bit_eqI) (auto simp: vote_def bit_or_iff bit_and_iff)
  show "vote y x x = x" by (rule bit_eqI) (auto simp: vote_def bit_or_iff bit_and_iff)
  show "bit (vote x y z) k = majority (bit x k) (bit y k) (bit z k)" for k
    by (simp add: vote_def majority_def bit_or_iff bit_and_iff)
qed

lemma vote_same: "vote x x x = x" by (simp add: vote_def)
lemma majority_same: "majority p p p = p" by (auto simp add: majority_def)

lemma split_geom0: "split geom0 = 7"
  by (simp add: split_def geom0_def slice_index_def)

lemma row_640: "slicer_row geom0 640 = 5"
  by (simp add: slicer_row_def split_geom0) (simp add: geom0_def drop_bit_eq_div take_bit_eq_mod)

lemma row_1152: "slicer_row geom0 1152 = 9"
  by (simp add: slicer_row_def split_geom0) (simp add: geom0_def drop_bit_eq_div take_bit_eq_mod)

lemma in0_plain: "\<not> refresh_req in0" "ready in0" "req_valid in0"
  by (simp_all add: in0_def)

lemma in0_votes:
  "lookValidVote in0" "bufValidVote in0" "lookAddrVote in0 = 1152" "bufAddrVote in0 = 640"
  "\<not> bufWeVote in0" "twtpVote in0" "trcVote in0" "trasVote in0"
  by (simp_all add: lookValidVote_def bufValidVote_def lookAddrVote_def bufAddrVote_def
      bufWeVote_def twtpVote_def trcVote_def trasVote_def
      TMRInput_control_def TMRInput_control1_def in0_def vote_same majority_same)

text \<open>
  The PRECHARGE state of the example is where a row miss in REGULAR leads: row 7 is
  open and the current buffer asks for row 5.
\<close>

lemma regs_precharge_reached:
  "bm_step settings0 \<lparr> fsm = REGULAR, row = 7, row_opened = True \<rparr> in0 = regs_precharge"
  by (simp add: bm_step_def fsm_next_def row_close_def row_open_def row_hit_def
      in0_votes in0_plain row_640 settings0_def regs_precharge_def)

text \<open>
  C6, as stated, fails: in the PRECHARGE state, with auto-precharge enabled, both voted
  queue entries valid and their rows different, \<open>auto_precharge\<close> is low.
\<close>

theorem auto_precharge_not_in_precharge:
  "with_auto_precharge settings0 \<and> lookValidVote in0 \<and> bufValidVote in0 \<and>
   slicer_row (geom settings0) (lookAddrVote in0) \<noteq> slicer_row (geom settings0) (bufAddrVote in0) \<and>
   \<not> auto_precharge settings0 regs_precharge in0"
  by (simp add: auto_precharge_def in0_votes row_640 row_1152 row_close_def
      settings0_def regs_precharge_def)

lemma bit10: "10 < w \<Longrightarrow> bit (take_bit w (push_bit 10 (1::nat) OR x)) 10"
  by (simp add: bit_take_bit_iff bit_or_iff bit_push_bit_iff bit_Suc_0_iff)

text \<open>
  C6, amended. With auto-precharge enabled, in a cycle in which both voted queue
  entries are valid and their rows differ, \<open>auto_precharge\<close> is asserted exactly
  when \<open>row_close\<close> is not, that is in every state but PRECHARGE, AUTOPRECHARGE and
  REFRESH; so it is asserted whenever a read or write command is issued, and that
  command's address carries A10 (on an address bus of more than 10 bits).
\<close>

theorem auto_precharge_row_change:
  assumes "with_auto_precharge st" and "lookValidVote i" and "bufValidVote i"
    and "slicer_row (geom st) (lookAddrVote i) \<noteq> slicer_row (geom st) (bufAddrVote i)"
  shows "(auto_precharge st s i \<longleftrightarrow> \<not> row_close s) \<and>
         (fsm s \<noteq> PRECHARGE \<and> fsm s \<noteq> AUTOPRECHARGE \<and> fsm s \<noteq> REFRESH
            \<longrightarrow> auto_precharge st s i) \<and>
         (valid (bm_cmd st s i) \<and> cas (bm_cmd st s i) \<and> 10 < addressbits st
            \<longrightarrow> auto_precharge st s i \<and> bit (a (bm_cmd st s i)) 10)"
proof (intro conjI impI)
  show ap: "auto_precharge st s i \<longleftrightarrow> \<not> row_close s"
    using assms by (simp add: auto_precharge_def)
  show "auto_precharge st s i"
    if "fsm s \<noteq> PRECHARGE \<and> fsm s \<noteq> AUTOPRECHARGE \<and> fsm s \<noteq> REFRESH"
    using that ap by (simp add: row_close_def)
  assume h: "valid (bm_cmd st s i) \<and> cas (bm_cmd st s i) \<and> 10 < addressbits st"
  then have r: "fsm s = REGULAR" by (simp add: bm_cmd_def regular_hit_def)
  then show p: "auto_precharge st s i" using ap by (simp add: row_close_def)
  have "\<not> row_col_n_addr_sel s i" using r by (simp add: row_col_n_addr_sel_def)
  then show "bit (a (bm_cmd st s i)) 10"
  proof -
    have "cmd_a st s i =
        take_bit (addressbits st) (push_bit 10 1 OR slicer_col (geom st) (bufAddrVote i))"
      using p \<open>\<not> row_col_n_addr_sel s i\<close> unfolding cmd_a_def by simp
    then have "bit (cmd_a st s i) 10" using h by (simp only: bit10)
    then show ?thesis by (simp add: bm_cmd_def)
  qed
qed

theorem auto_precharge_row_change_witness:
  "auto_precharge settings0 regs_hit in0 \<and> bit (a (bm_cmd settings0 regs_hit in0)) 10"
proof -
  have w: "with_auto_precharge settings0" by (simp add: settings0_def)
  have d: "slicer_row (geom settings0) (lookAddrVote in0)
           \<noteq> slicer_row (geom settings0) (bufAddrVote in0)"
    by (simp add: in0_votes settings0_def row_640 row_1152)
  have v: "valid (bm_cmd settings0 regs_hit in0) \<and> cas (bm_cmd settings0 regs_hit in0) \<and>
           10 < addressbits settings0"
    by (simp add: bm_cmd_def regular_hit_def row_hit_def in0_votes in0_plain row_640
        settings0_def regs_hit_def)
  show ?thesis
    using auto_precharge_row_change [OF w in0_votes(1) in0_votes(2) d, of regs_hit] v
    by blast
qed

text \<open>
  C4. In a cycle in which the bank machine issues a read or write command
  (\<open>cmd.valid\<close> with \<open>cas\<close>), the FSM is in REGULAR, \<open>row_opened\<close> is true and
  the tracked row equals the row field of the voted address of the current buffers.
\<close>

theorem row_hit_command:
  assumes "valid (bm_cmd st s i)" and "cas (bm_cmd st s i)"
  shows "fsm s = REGULAR \<and> row_opened s \<and>
         row s = slicer_row (geom st) (TMRInput_control (bufAddrSig i))"
  using assms by (simp add: bm_cmd_def regular_hit_def row_hit_def bufAddrVote_def)

theorem row_hit_command_witness:
  "fsm regs_hit = REGULAR \<and> row_opened regs_hit \<and>
   row regs_hit = slicer_row (geom settings0) (TMRInput_control (bufAddrSig in0))"
proof -
  have v: "valid (bm_cmd settings0 regs_hit in0)" "cas (bm_cmd settings0 regs_hit in0)"
    by (simp_all add: bm_cmd_def regular_hit_def row_hit_def in0_votes in0_plain row_640
        settings0_def regs_hit_def)
  show ?thesis using row_hit_command [OF v] .
qed




lemma foldl_and: "foldl (\<and>) x ys \<longleftrightarrow> x \<and> (\<forall>y \<in> set ys. y)"
  by (induction ys arbitrary: x) auto

lemma reduce_and_Some: "reduce_and xs = Some g \<Longrightarrow> xs \<noteq> [] \<and> (g \<longleftrightarrow> (\<forall>x \<in> set xs. x))"
  by (cases xs) (auto simp: reduce_and_def foldl_and)

lemma mux_enter_refresh:
  "s \<noteq> REFRESH_mux \<Longrightarrow> mux_fsm_next ms s go i = REFRESH_mux \<Longrightarrow> go"
  by (cases s) (auto simp: mux_fsm_next_def delayed_enter_def delayed_next_def split: if_splits)

lemma steerer_sel_not_refresh: "steerer_sel p d c \<noteq> STEER_REFRESH"
  by (simp add: steerer_sel_def STEER_REFRESH_def STEER_CMD_def STEER_REQ_def STEER_NOP_def)

lemma nop_not_refresh: "STEER_NOP \<noteq> STEER_REFRESH"
  by (simp add: STEER_REFRESH_def STEER_NOP_def)

lemma mux_sel_refresh: "mux_sel ms s p = STEER_REFRESH \<Longrightarrow> s = REFRESH_mux \<and> p = 0"
  by (cases s) (auto simp: mux_sel_def steerer_sel_not_refresh nop_not_refresh
      split: if_splits)

text \<open>
  C5. The control FSM starts outside REFRESH, selects the refresh source only in
  REFRESH, and enters REFRESH from another state only in a cycle in which every bank
  machine asserts \<open>refresh_gnt\<close>; a bank machine asserts it only in its own REFRESH
  state with the voted write-to-precharge guard ready.
\<close>

theorem refresh_needs_all_grants:
  assumes "go_to_refresh bank_machines = Some go"
    and "s \<noteq> REFRESH_mux" and "mux_fsm_next ms s go i = REFRESH_mux"
  shows "mux_reset \<noteq> REFRESH_mux \<and>
         (\<forall>s' p. mux_sel ms s' p = STEER_REFRESH \<longrightarrow> s' = REFRESH_mux) \<and>
         bank_machines \<noteq> [] \<and>
         (\<forall>(b, bi) \<in> set bank_machines.
            refresh_gnt b bi \<and> fsm b = REFRESH \<and> TMRInput_control1 (twtpSig bi))"
proof -
  have go using assms(2,3) by (rule mux_enter_refresh)
  with assms(1) have "bank_machines \<noteq> []"
    and "\<forall>x \<in> set (map (\<lambda>(b, bi). refresh_gnt b bi) bank_machines). x"
    using reduce_and_Some [of "map (\<lambda>(b, bi). refresh_gnt b bi) bank_machines" go]
    by (auto simp: go_to_refresh_def)
  then show ?thesis
    using mux_sel_refresh by (auto simp: mux_reset_def refresh_gnt_def twtpVote_def)
qed

theorem refresh_needs_all_grants_witness:
  "(refresh_gnt regs_refresh in_refresh \<and> fsm regs_refresh = REFRESH \<and>
    TMRInput_control1 (twtpSig in_refresh)) \<and>
   (refresh_gnt regs_refresh in_refresh_voted \<and> fsm regs_refresh = REFRESH \<and>
    TMRInput_control1 (twtpSig in_refresh_voted))"
proof -
  have t: "twtpVote in_refresh" "twtpVote in_refresh_voted"
    by (simp_all add: twtpVote_def TMRInput_control1_def in_refresh_def in_refresh_voted_def
        in0_def majority_def)
  have g: "go_to_refresh [(regs_refresh, in_refresh), (regs_refresh, in_refresh_voted),
                   (regs_refresh, in_refresh), (regs_refresh, in_refresh_voted)] = Some True"
    by (simp add: go_to_refresh_def reduce_and_def refresh_gnt_def t regs_refresh_def)
  have e: "mux_fsm_next mux_settings0 READ True mux_in0 = REFRESH_mux"
    by (simp add: mux_fsm_next_def)
  show ?thesis
    using refresh_needs_all_grants [OF g _ e] by simp
qed

text \<open>
  With four bank machines in REFRESH, one of which has two replicas of its
  write-to-precharge controller not ready, the multiplexer stays in READ.
\<close>

lemma refresh_waits_for_every_bank:
  "go_to_refresh [(regs_refresh, in_refresh), (regs_refresh, in_refresh_voted),
                 (regs_refresh, in_refresh_blocked), (regs_refresh, in_refresh)] = Some False \<and>
   mux_fsm_next mux_settings0 READ False mux_in0 = READ"
  by (simp add: go_to_refresh_def reduce_and_def refresh_gnt_def twtpVote_def
      TMRInput_control1_def in_refresh_def in_refresh_blocked_def in0_def majority_def
      regs_refresh_def mux_fsm_next_def mux_in0_def)

lemma steerer_next_nth:
  "p < length sels \<Longrightarrow> steerer_next g sels commands ! p = steerer_phase g p (sels ! p) commands"
  by (simp add: steerer_next_def)

lemma mux_sels_nth: "p < length (mux_sels ms s) \<Longrightarrow> mux_sels ms s ! p = mux_sel ms s p"
  by (simp add: mux_sels_def)

lemma steerer_phase0_refresh:
  "rankbits g \<noteq> 0 \<Longrightarrow>
   cs_n (steerer_phase g 0 STEER_REFRESH commands) = replicate (nranks g) False"
  by (simp add: steerer_phase_def Let_def)

text \<open>
  C7. In a multi-rank configuration, for every phase for which the refresh source is
  selected in a cycle, the chip select of that phase is low for every rank on the
  following cycle. The selections are those the multiplexer drives; it selects the
  refresh source for phase 0 only, in its REFRESH state.
\<close>

theorem refresh_selects_all_ranks:
  assumes "rankbits g \<noteq> 0" and "p < length (mux_sels ms s)"
    and "mux_sels ms s ! p = STEER_REFRESH"
  shows "length (cs_n (steerer_next g (mux_sels ms s) commands ! p)) = nranks g \<and>
         (\<forall>j < nranks g. \<not> cs_n (steerer_next g (mux_sels ms s) commands ! p) ! j)"
proof -
  have "mux_sel ms s p = STEER_REFRESH" using assms(2,3) by (simp add: mux_sels_nth)
  then have "p = 0" using mux_sel_refresh by blast
  then have "steerer_next g (mux_sels ms s) commands ! p = steerer_phase g 0 STEER_REFRESH commands"
    using assms(2,3) by (simp add: steerer_next_nth)
  then show ?thesis using assms(1) by (simp add: steerer_phase0_refresh)
qed

theorem refresh_selects_all_ranks_witness:
  "mux_sels mux_settings0 REFRESH_mux ! 0 = STEER_REFRESH \<and>
   \<not> cs_n (steerer_next geom2 (mux_sels mux_settings0 REFRESH_mux) commands0 ! 0) ! 0 \<and>
   \<not> cs_n (steerer_next geom2 (mux_sels mux_settings0 REFRESH_mux) commands0 ! 0) ! 1"
proof -
  have r: "rankbits geom2 \<noteq> 0" by (simp add: geom2_def)
  have n: "nranks geom2 = 2" by (simp add: nranks_def geom2_def)
  have l: "0 < length (mux_sels mux_settings0 REFRESH_mux)"
    by (simp add: mux_sels_def mux_settings0_def)
  have e: "mux_sels mux_settings0 REFRESH_mux ! 0 = STEER_REFRESH"
    using l by (simp add: mux_sels_nth mux_sel_def)
  show ?thesis
    using refresh_selects_all_ranks [OF r l e, of commands0] n e by simp
qed

text \<open>
  The steerer taken alone decodes the rank on every phase but phase 0: had phase 1
  the refresh source selected, the chip select of rank 1 would stay high.
\<close>

lemma steerer_later_phase_refresh:
  "rankbits geom2 \<noteq> 0 \<and>
   cs_n (steerer_next geom2 [STEER_NOP, STEER_REFRESH] commands0 ! 1) ! 1"
  by (simp add: steerer_next_nth steerer_phase_def Let_def geom2_def nranks_def
      rank_decoder_o_def array_sel_def commands0_def STEER_REFRESH_def refresh_request_def
      ba_rank_def slice_index_def upt_rec)

lemma ba_bank_mod:
  "rankbits g \<noteq> 0 \<Longrightarrow> rankbits g \<le> babits g \<Longrightarrow>
   ba_bank g x = x mod 2 ^ (babits g - rankbits g)"
  by (auto simp: ba_bank_def slice_index_def take_bit_eq_mod nat_diff_distrib' min_def)

text \<open>
  C8, as stated, fails for the bank: with two ranks, a source whose \<open>ba\<close> is 5
  (rank 1, bank 1) puts 1 on the bank output.
\<close>

theorem steerer_bank_strips_rank:
  "bank (steerer_next geom2 [STEER_REQ] commands0 ! 0) = 1 \<and>
   ba (src (array_sel commands0 STEER_REQ)) = 5"
  by (simp add: steerer_next_nth steerer_phase_def Let_def geom2_def array_sel_def commands0_def
      STEER_REQ_def read_request_def ba_bank_def slice_index_def take_bit_eq_mod)

text \<open>
  C8, amended. The outputs of phase \<open>p\<close> after the clock edge come from the source
  selected for \<open>p\<close> before it: the address is the source's \<open>a\<close>; the bank is the
  source's \<open>ba\<close>, without its rank-select bits in a multi-rank configuration; each
  of the \<open>cas\<close>, \<open>ras\<close>, \<open>we\<close> strobes (active low) and of the read and write
  data enables is asserted exactly when the source was valid and ready and drove the
  corresponding field.
\<close>

theorem steerer_one_cycle:
  assumes "p < length sels" and "rankbits g \<le> babits g"
  shows "address (steerer_next g sels commands ! p) = a (src (array_sel commands (sels ! p))) \<and>
    bank (steerer_next g sels commands ! p) =
      (if rankbits g \<noteq> 0
       then ba (src (array_sel commands (sels ! p))) mod 2 ^ (babits g - rankbits g)
       else ba (src (array_sel commands (sels ! p)))) \<and>
    (\<not> cas_n (steerer_next g sels commands ! p) \<longleftrightarrow>
       valid (src (array_sel commands (sels ! p))) \<and> src_ready (array_sel commands (sels ! p)) \<and>
       cas (src (array_sel commands (sels ! p)))) \<and>
    (\<not> ras_n (steerer_next g sels commands ! p) \<longleftrightarrow>
       valid (src (array_sel commands (sels ! p))) \<and> src_ready (array_sel commands (sels ! p)) \<and>
       ras (src (array_sel commands (sels ! p)))) \<and>
    (\<not> we_n (steerer_next g sels commands ! p) \<longleftrightarrow>
       valid (src (array_sel commands (sels ! p))) \<and> src_ready (array_sel commands (sels ! p)) \<and>
       we (src (array_sel commands (sels ! p)))) \<and>
    (rddata_en (steerer_next g sels commands ! p) \<longleftrightarrow>
       valid (src (array_sel commands (sels ! p))) \<and> src_ready (array_sel commands (sels ! p)) \<and>
       is_read (src (array_sel commands (sels ! p)))) \<and>
    (wrdata_en (steerer_next g sels commands ! p) \<longleftrightarrow>
       valid (src (array_sel commands (sels ! p))) \<and> src_ready (array_sel commands (sels ! p)) \<and>
       is_write (src (array_sel commands (sels ! p))))"
  using assms
  by (auto simp: steerer_next_nth steerer_phase_def Let_def valid_and_def ba_bank_mod)

theorem steerer_one_cycle_witness:
  "address (steerer_next geom2 [STEER_REQ] commands0 ! 0) = 24 \<and>
   bank (steerer_next geom2 [STEER_REQ] commands0 ! 0) = 1 \<and>
   \<not> cas_n (steerer_next geom2 [STEER_REQ] commands0 ! 0) \<and>
   rddata_en (steerer_next geom2 [STEER_REQ] commands0 ! 0)"
proof -
  have r: "rankbits geom2 \<le> babits geom2" by (simp add: geom2_def)
  have c: "array_sel commands0 STEER_REQ = \<lparr> src = read_request, src_ready = True \<rparr>"
    by (simp add: array_sel_def commands0_def STEER_REQ_def)
  show ?thesis
    using steerer_one_cycle [OF _ r, of 0 "[STEER_REQ]" commands0]
    by (simp add: c read_request_def geom2_def)
qed

end
